theory Spec2Isabelle
  imports Main
begin

section \<open>The connection pool of \<open>src/index.js\<close>\<close>

text \<open>
  The pool manager is an event-driven object: its methods run to completion on one
  thread, and everything asynchronous (a factory calling back, a connection emitting
  \<open>connect\<close>, \<open>error\<close>, \<open>timeout\<close>, \<open>close\<close> or \<open>end\<close>, a \<open>process.nextTick\<close> task)
  arrives later as a separate event. The model is a record of the manager's fields and
  one function per method or listener, each taking the state and returning the new one.

  Connections are objects compared by identity, so they are identifiers (\<open>cid\<close>) into a
  store holding what the pool reads from them and what it does to them. An allocation
  call is identified by its callback (\<open>rid\<close>). Calls of user callbacks, events emitted by
  the manager and uncaught exceptions are appended to logs.

  What lies outside the file is taken as follows. The transport's methods (\<open>end\<close>,
  \<open>destroy\<close>, \<open>destroySoon\<close>), the user's callbacks and the user's listeners do not call
  back into the pool before they return: what they cause comes as later events. The
  write counters of a connection are natural numbers. An asynchronous factory answers
  each invocation at most once. \<open>EventEmitter\<close> runs the listeners registered when
  \<open>emit\<close> starts, in registration order, and throws on an \<open>error\<close> event nobody listens
  for. The retry wrapper \<open>pull\<close> and \<open>forEach\<close> are not modelled.
\<close>

subsection \<open>Data\<close>

type_synonym cid = nat
type_synonym rid = nat

text \<open>The three errors \<open>allocate\<close> creates, and any value coming from outside
  (a factory's error, the argument of a connection's \<open>error\<close> event).\<close>

datatype error = Specify_factory | Factory_failed | Pool_full | Foreign string

text \<open>Listeners the pool registers on a connection: \<open>regenerate\<close> (by \<open>listen\<close>, on
  \<open>timeout\<close>, \<open>error\<close>, \<open>close\<close>, \<open>end\<close>) and the \<open>either\<close> closure of an allocation
  (on \<open>error\<close> and \<open>connect\<close>).\<close>

datatype listener = Regenerate | Either rid

text \<open>Methods of the transport the pool calls on a connection.\<close>

datatype call = CEnd | CDestroy | CDestroySoon

datatype sigkind = SConnect | STimeout | SError | SClose | SEnd

record connection =
  readyState :: string
  destroyed :: bool
  pendingWriteReqs :: nat
  writeQueue :: nat
  listeners :: "listener list"
  calls :: "call list"

text \<open>A factory is a function; only its declared arity is inspected
  (\<open>generator.length === 0\<close>).\<close>

datatype factory = Sync | Async

datatype emission =
  EmError error | EmConnectionClose cid | EmFree nat nat | EmEnd | EmClose

datatype exn = TypeError | Unhandled error

record manager =
  limit :: int
  pool :: "cid list"
  pending :: int
  generator :: "factory option"
  allocations :: nat
  releases :: nat
  conns :: "cid \<Rightarrow> connection"
  calling :: "rid list"
  closing :: "int list"
  ticks :: nat
  errorHandled :: bool
  emitted :: "emission list"
  completed :: "(rid \<times> error option \<times> cid option) list"
  raised :: "exn list"
  rng :: "nat list"

text \<open>
  \<^item> \<open>allocations\<close>, \<open>releases\<close>: the two counters of \<open>this.metrics\<close>.
  \<^item> \<open>calling\<close>: allocations whose asynchronous factory has been invoked and has not
    called \<open>generate\<close> back yet.
  \<^item> \<open>closing\<close>: the variable \<open>size\<close> of every \<open>ending\<close> listener registered by \<open>end\<close>
    on \<open>connection:close\<close>, in registration order.
  \<^item> \<open>ticks\<close>: \<open>ticktock\<close> tasks handed to \<open>process.nextTick\<close> and not run yet.
  \<^item> \<open>errorHandled\<close>: the manager has a listener for \<open>error\<close>; without one,
    \<open>EventEmitter.emit('error', err)\<close> throws.
  \<^item> \<open>rng\<close>: the future values of \<open>Math.random() * 70\<close>, rounded down.
\<close>

definition fresh :: connection where
  "fresh = \<lparr>readyState = ''opening'', destroyed = False, pendingWriteReqs = 0,
     writeQueue = 0, listeners = [], calls = []\<rparr>"

text \<open>\<open>new Manager(limit, builder)\<close>: \<open>+limit || 20\<close>; \<open>factory(builder)\<close> when a builder
  is given.\<close>

definition Manager :: "int \<Rightarrow> factory option \<Rightarrow> manager" where
  "Manager l builder =
     \<lparr>limit = (if l = 0 then 20 else l), pool = [], pending = 0, generator = builder,
      allocations = 0, releases = 0, conns = (\<lambda>_. fresh), calling = [], closing = [],
      ticks = 0, errorHandled = False, emitted = [], completed = [], raised = [],
      rng = []\<rparr>"

subsection \<open>Arrays\<close>

text \<open>\<open>Array.prototype.indexOf\<close>: the first index holding the element, or \<open>-1\<close>.\<close>

fun indexOf :: "'a list \<Rightarrow> 'a \<Rightarrow> int" where
  "indexOf [] x = -1"
| "indexOf (y # ys) x =
     (if y = x then 0 else let i = indexOf ys x in if i = -1 then -1 else i + 1)"

text \<open>\<open>xs.splice(i, 1)\<close>.\<close>

definition splice1 :: "'a list \<Rightarrow> nat \<Rightarrow> 'a list" where
  "splice1 xs i = take i xs @ drop (Suc i) xs"

subsection \<open>Effects on connections and logs\<close>

definition invoke :: "cid \<Rightarrow> call \<Rightarrow> manager \<Rightarrow> manager" where
  "invoke c m s = s\<lparr>conns := (conns s)(c := (conns s c)\<lparr>calls := calls (conns s c) @ [m]\<rparr>)\<rparr>"

definition on :: "cid \<Rightarrow> listener \<Rightarrow> manager \<Rightarrow> manager" where
  "on c l s =
     s\<lparr>conns := (conns s)(c := (conns s c)\<lparr>listeners := listeners (conns s c) @ [l]\<rparr>)\<rparr>"

definition removeListener :: "cid \<Rightarrow> listener \<Rightarrow> manager \<Rightarrow> manager" where
  "removeListener c l s =
     s\<lparr>conns := (conns s)(c := (conns s c)\<lparr>listeners := remove1 l (listeners (conns s c))\<rparr>)\<rparr>"

text \<open>A call \<open>fn(err, connection)\<close> of the callback given to \<open>allocate\<close>.\<close>

definition complete :: "rid \<Rightarrow> error option \<Rightarrow> cid option \<Rightarrow> manager \<Rightarrow> manager" where
  "complete fn err connection s = s\<lparr>completed := completed s @ [(fn, err, connection)]\<rparr>"

definition emit :: "emission \<Rightarrow> manager \<Rightarrow> manager" where
  "emit e s = s\<lparr>emitted := emitted s @ [e]\<rparr>"

subsection \<open>\<open>release\<close> (alias \<open>remove\<close>)\<close>

text \<open>The pool holds connection objects only, so the test \<open>if (connection)\<close> after a
  successful \<open>indexOf\<close> is always true.\<close>

definition release :: "cid \<Rightarrow> bool \<Rightarrow> manager \<Rightarrow> bool \<times> manager" where
  "release connection hard s =
     (let index = indexOf (pool s) connection in
      if index = -1 then (False, s)
      else (True,
        (invoke connection (if \<not> hard then CEnd else CDestroy) s)
          \<lparr>pool := splice1 (pool s) (nat index), releases := releases s + 1\<rparr>))"

subsection \<open>\<open>isAvailable\<close>\<close>

text \<open>\<open>Math.floor(Math.random() * 70)\<close>: the next value of the entropy, which is below 70.\<close>

definition random70 :: "manager \<Rightarrow> nat \<times> manager" where
  "random70 s = (case rng s of [] \<Rightarrow> (0, s) | r # rs \<Rightarrow> (r mod 70, s\<lparr>rng := rs\<rparr>))"

definition writable :: "connection \<Rightarrow> bool" where
  "writable cn = (readyState cn = ''open'' \<or> readyState cn = ''writeOnly'')"

text \<open>\<open>writeQueue.length || writePending\<close>.\<close>

definition writes :: "connection \<Rightarrow> nat" where
  "writes cn = (if writeQueue cn \<noteq> 0 then writeQueue cn else pendingWriteReqs cn)"

definition isAvailable :: "cid \<Rightarrow> manager \<Rightarrow> nat \<times> manager" where
  "isAvailable connection s =
     (let cn = conns s connection in
      if writable cn \<and> writes cn = 0 then (100, s)
      else if readyState cn = ''closed'' \<or> destroyed cn
        then (0, snd (release connection False s))
      else if \<not> writable cn then (0, s)
      else if readyState cn = ''opening'' then (70, s)
      else if writes cn < 100 then (100 - writes cn, s)
      else random70 s)"

subsection \<open>\<open>listen\<close> and the listeners on a connection\<close>

definition listen :: "cid \<Rightarrow> manager \<Rightarrow> manager" where
  "listen connection s = on connection Regenerate s"

text \<open>The \<open>ending\<close> listeners of \<open>end\<close>, run by \<open>emit('connection:close')\<close>:
  \<open>if (--size) return; self.removeListener(...); self.emit('close')\<close>. The result is
  the listeners that stay, with their new \<open>size\<close>, and the events emitted.\<close>

fun ending :: "int list \<Rightarrow> int list \<times> emission list" where
  "ending [] = ([], [])"
| "ending (sz # rest) =
     (let sz' = sz - 1; (stay, out) = ending rest in
      if sz' \<noteq> 0 then (sz' # stay, out) else (stay, EmClose # out))"

definition connection_close :: "cid \<Rightarrow> manager \<Rightarrow> manager" where
  "connection_close connection s =
     (let (stay, out) = ending (closing s) in
      s\<lparr>closing := stay, emitted := emitted s @ EmConnectionClose connection # out\<rparr>)"

text \<open>\<open>self.emit('error', err)\<close>: throws when nobody listens. The flag says whether
  it threw.\<close>

definition emit_error :: "error \<Rightarrow> manager \<Rightarrow> bool \<times> manager" where
  "emit_error err s =
     (if errorHandled s then (False, emit (EmError err) s)
      else (True, s\<lparr>raised := raised s @ [Unhandled err]\<rparr>))"

definition regenerate :: "cid \<Rightarrow> error option \<Rightarrow> manager \<Rightarrow> bool \<times> manager" where
  "regenerate connection err s =
     (let s1 = invoke connection CDestroySoon s;
          s2 = snd (release connection False s1);
          s3 = removeListener connection Regenerate s2
      in case err of
           Some e \<Rightarrow> emit_error e s3
         | None \<Rightarrow> (False, connection_close connection s3))"

definition either :: "rid \<Rightarrow> cid \<Rightarrow> error option \<Rightarrow> manager \<Rightarrow> manager" where
  "either fn this err s =
     (let s1 = removeListener this (Either fn) s;
          s2 = s1\<lparr>pool := pool s1 @ [this], pending := pending s1 - 1\<rparr>
      in complete fn err (Some this) s2)"

text \<open>Which listeners were registered for which event of the connection.\<close>

fun hears :: "sigkind \<Rightarrow> listener \<Rightarrow> bool" where
  "hears SConnect l = (l \<noteq> Regenerate)"
| "hears SError l = True"
| "hears k l = (l = Regenerate)"

text \<open>The connection emits an event: the listeners registered at that moment run in
  registration order; an exception leaves the emit.\<close>

fun run_listeners :: "listener list \<Rightarrow> cid \<Rightarrow> error option \<Rightarrow> manager \<Rightarrow> manager" where
  "run_listeners [] c err s = s"
| "run_listeners (Regenerate # ls) c err s =
     (case regenerate c err s of
        (True, s') \<Rightarrow> s'
      | (False, s') \<Rightarrow> run_listeners ls c err s')"
| "run_listeners (Either fn # ls) c err s = run_listeners ls c err (either fn c err s)"

definition signal :: "cid \<Rightarrow> sigkind \<Rightarrow> error option \<Rightarrow> manager \<Rightarrow> manager" where
  "signal c k err s = run_listeners (filter (hears k) (listeners (conns s c))) c err s"

subsection \<open>\<open>allocate\<close>\<close>

datatype scanned = Hit cid | Miss | Crash

text \<open>The loop \<open>while (i--)\<close> over \<open>this.pool[i]\<close>. Reading past the end of the array
  gives \<open>undefined\<close>, and \<open>isAvailable(undefined)\<close> throws a \<open>TypeError\<close>.\<close>

fun scan :: "nat \<Rightarrow> (nat \<times> cid) list \<Rightarrow> manager \<Rightarrow> scanned \<times> (nat \<times> cid) list \<times> manager" where
  "scan 0 probabilities s = (Miss, probabilities, s)"
| "scan (Suc i) probabilities s =
     (if length (pool s) \<le> i then (Crash, probabilities, s)
      else
        let connection = pool s ! i;
            (probability, s') = isAvailable connection s
        in if probability = 100 then (Hit connection, probabilities, s')
           else scan i (probabilities @ [(probability, connection)]) s')"

text \<open>\<open>pending++; listen(connection); connection.on('error', either).on('connect', either)\<close>.\<close>

definition await :: "rid \<Rightarrow> cid \<Rightarrow> manager \<Rightarrow> manager" where
  "await fn connection s =
     on connection (Either fn) (listen connection (s\<lparr>pending := pending s + 1\<rparr>))"

text \<open>\<open>probabilities.sort(...).pop()\<close> and what follows. The sort is stable
  (ECMAScript 2019).\<close>

definition fallback :: "rid \<Rightarrow> (nat \<times> cid) list \<Rightarrow> manager \<Rightarrow> manager" where
  "fallback fn probabilities s =
     (if probabilities = [] then complete fn (Some Pool_full) None s
      else
        let (probability, connection) = last (sort_key fst probabilities)
        in if probability \<ge> 60 then complete fn None (Some connection) s
           else complete fn (Some Pool_full) None s)"

text \<open>\<open>allocate(fn)\<close>. The argument \<open>made\<close> is what the synchronous factory returns if
  this call invokes it (\<open>None\<close> for a falsy value).\<close>

definition allocate :: "rid \<Rightarrow> cid option \<Rightarrow> manager \<Rightarrow> manager" where
  "allocate fn made s =
     (case generator s of
        None \<Rightarrow> complete fn (Some Specify_factory) None s
      | Some g \<Rightarrow>
          (case scan (length (pool s)) [] (s\<lparr>allocations := allocations s + 1\<rparr>) of
             (Crash, probabilities, s1) \<Rightarrow> s1\<lparr>raised := raised s1 @ [TypeError]\<rparr>
           | (Hit connection, probabilities, s1) \<Rightarrow> complete fn None (Some connection) s1
           | (Miss, probabilities, s1) \<Rightarrow>
               if int (length (pool s1)) + pending s1 < limit s1 then
                 (case g of
                    Sync \<Rightarrow>
                      (case made of
                         Some connection \<Rightarrow> await fn connection s1
                       | None \<Rightarrow> fallback fn probabilities s1)
                  | Async \<Rightarrow> s1\<lparr>calling := calling s1 @ [fn]\<rparr>)
               else fallback fn probabilities s1))"

text \<open>The callback \<open>generate(err, connection)\<close> given to an asynchronous factory.\<close>

definition generate :: "rid \<Rightarrow> error option \<Rightarrow> cid option \<Rightarrow> manager \<Rightarrow> manager" where
  "generate fn err connection s =
     (case err of
        Some e \<Rightarrow> complete fn (Some e) None s
      | None \<Rightarrow>
          (case connection of
             None \<Rightarrow> complete fn (Some Factory_failed) None s
           | Some c \<Rightarrow> await fn c s))"

subsection \<open>\<open>free\<close> and \<open>end\<close>\<close>

fun free_loop :: "cid list \<Rightarrow> nat \<Rightarrow> bool \<Rightarrow> nat \<Rightarrow> manager \<Rightarrow> nat \<times> manager" where
  "free_loop [] keep hard saved s = (saved, s)"
| "free_loop (connection # rest) keep hard saved s =
     (let (probability, s1) = isAvailable connection s in
      if keep \<noteq> 0 \<and> saved < keep \<and> probability = 100
      then free_loop rest keep hard (saved + 1) s1
      else free_loop rest keep hard saved (snd (release connection hard s1)))"

definition free :: "nat \<Rightarrow> bool \<Rightarrow> manager \<Rightarrow> manager" where
  "free keep hard s =
     (let (saved, s1) = free_loop (pool s) keep hard 0 s
      in emit (EmFree saved (length (pool s1))) s1)"

text \<open>\<open>end(hard)\<close>: the argument is not used, the pool is freed with \<open>free(0, true)\<close>.\<close>

definition end_pool :: "bool \<Rightarrow> manager \<Rightarrow> manager" where
  "end_pool hard s =
     (let sz = int (length (pool s));
          s1 = free 0 True s
      in s1\<lparr>ticks := ticks s1 + 1, closing := closing s1 @ [sz]\<rparr>)"

definition ticktock :: "manager \<Rightarrow> manager" where
  "ticktock s = (if ticks s = 0 then s else emit EmEnd (s\<lparr>ticks := ticks s - 1\<rparr>))"

subsection \<open>Events\<close>

text \<open>What can happen to a pool: a call of one of its methods, or something the
  environment does (a factory calls back, a connection emits an event, the transport
  changes what a connection shows, a scheduled task runs, a listener for \<open>error\<close> is
  added).\<close>

datatype event =
    Factory factory
  | OnError
  | Allocate rid "cid option"
  | Generated rid "error option" "cid option"
  | Signal cid sigkind "error option"
  | Transport cid string bool nat nat
  | Release cid bool
  | Free nat bool
  | End bool
  | Tick

fun step :: "event \<Rightarrow> manager \<Rightarrow> manager" where
  "step (Factory g) s = s\<lparr>generator := Some g\<rparr>"
| "step OnError s = s\<lparr>errorHandled := True\<rparr>"
| "step (Allocate fn made) s = allocate fn made s"
| "step (Generated fn err connection) s =
     (if fn \<in> set (calling s)
      then generate fn err connection (s\<lparr>calling := remove1 fn (calling s)\<rparr>)
      else s)"
| "step (Signal c k err) s = signal c k err s"
| "step (Transport c rs d p q) s =
     s\<lparr>conns := (conns s)(c := (conns s c)
        \<lparr>readyState := rs, destroyed := d, pendingWriteReqs := p, writeQueue := q\<rparr>)\<rparr>"
| "step (Release c hard) s = snd (release c hard s)"
| "step (Free keep hard) s = free keep hard s"
| "step (End hard) s = end_pool hard s"
| "step Tick s = ticktock s"

fun run :: "event list \<Rightarrow> manager \<Rightarrow> manager" where
  "run [] s = s"
| "run (e # es) s = run es (step e s)"

subsection \<open>Certain connections\<close>

text \<open>A connection whose score is exactly 100.\<close>

definition certain :: "manager \<Rightarrow> cid \<Rightarrow> bool" where
  "certain s c = (fst (isAvailable c s) = 100)"

subsection \<open>Dead connections\<close>


subsection \<open>Reachable states used as examples\<close>

text \<open>A pool with a synchronous factory after one allocation whose connection (number 7)
  has connected.\<close>

definition pooled :: manager where
  "pooled = run [Allocate 1 (Some 7), Signal 7 SConnect None] (Manager 20 (Some Sync))"

text \<open>The same pool while connection 7 has been created and has not connected yet.\<close>

definition connecting :: manager where
  "connecting = run [Allocate 1 (Some 7)] (Manager 20 (Some Sync))"

text \<open>Connection 7 is in the pool, shows \<open>open\<close> with nothing to write, and has its
  \<open>destroyed\<close> flag set.\<close>

definition zombie :: manager where
  "zombie = run [Allocate 1 (Some 7), Signal 7 SConnect None, Transport 7 ''open'' True 0 0]
     (Manager 20 (Some Sync))"

text \<open>Connection 7 is in the pool and closed.\<close>

definition buried :: manager where
  "buried = run [Allocate 1 (Some 7), Signal 7 SConnect None, Transport 7 ''closed'' True 0 0]
     (Manager 20 (Some Sync))"

text \<open>A pool of limit 1 with an asynchronous factory: two allocations were made before the
  factory answered either, then the factory delivered a connection to each.\<close>

definition racing :: manager where
  "racing = run [Allocate 1 None, Allocate 2 None,
       Generated 1 None (Some 1), Generated 2 None (Some 2)] (Manager 1 (Some Async))"

text \<open>A pool that listens for \<open>error\<close>: the connection just created fails to connect.\<close>

definition refused :: manager where
  "refused = run [OnError, Allocate 1 (Some 7), Signal 7 SError (Some (Foreign ''ECONNREFUSED''))]
     (Manager 20 (Some Sync))"

text \<open>A pool holding connections 7 and 8, in this order, both open with nothing to
  write.\<close>

definition idle2 :: manager where
  "idle2 = run [Allocate 1 (Some 7), Signal 7 SConnect None, Transport 7 ''open'' False 5 0,
       Allocate 2 (Some 8), Signal 8 SConnect None,
       Transport 7 ''open'' False 0 0, Transport 8 ''open'' False 0 0]
     (Manager 20 (Some Sync))"


subsection \<open>Shutdown\<close>

text \<open>How many times the manager has emitted \<open>close\<close>.\<close>

definition closes :: "manager \<Rightarrow> nat" where
  "closes s = count_list (emitted s) EmClose"

text \<open>How many \<open>ending\<close> listeners can still reach zero: those whose \<open>size\<close> is at
  least 1.\<close>

definition armed :: "manager \<Rightarrow> nat" where
  "armed s = length (filter (\<lambda>n. 1 \<le> n) (closing s))"


fun is_End :: "event \<Rightarrow> bool" where
  "is_End (End hard) = True"
| "is_End e = False"


subsection \<open>Capacity\<close>

text \<open>Connections in the pool plus connections being created, and the bound the
  allocator tests before it invokes the factory.\<close>

definition occupancy :: "manager \<Rightarrow> int" where
  "occupancy s = int (length (pool s)) + pending s"

definition within_limit :: "manager \<Rightarrow> bool" where
  "within_limit s = (occupancy s \<le> limit s)"

text \<open>The state of a pool that has only ever used a synchronous factory: no factory
  call is awaiting its answer. The occupancy is compared with \<open>n\<close>, the limit is \<open>l\<close>.\<close>

definition synchronous :: "int \<Rightarrow> int \<Rightarrow> manager \<Rightarrow> bool" where
  "synchronous n l s =
     (occupancy s \<le> n \<and> limit s = l \<and> generator s \<noteq> Some Async \<and> calling s = [])"

section \<open>Properties\<close>

subsection \<open>Arrays\<close>

lemma indexOf_absent: "x \<notin> set xs \<Longrightarrow> indexOf xs x = -1"
  by (induction xs) (auto simp: Let_def)

lemma indexOf_present: "x \<in> set xs \<Longrightarrow> 0 \<le> indexOf xs x \<and> indexOf xs x < int (length xs)"
  by (induction xs) (auto simp: Let_def)

lemma indexOf_minus1_iff: "indexOf xs x = -1 \<longleftrightarrow> x \<notin> set xs"
  using indexOf_absent indexOf_present by fastforce

text \<open>Splicing at the index found removes the first occurrence.\<close>

lemma splice1_indexOf: "x \<in> set xs \<Longrightarrow> splice1 xs (nat (indexOf xs x)) = remove1 x xs"
proof (induction xs)
  case Nil
  then show ?case by simp
next
  case (Cons y ys)
  show ?case
  proof (cases "y = x")
    case True
    then show ?thesis by (simp add: splice1_def)
  next
    case False
    with Cons.prems have mem: "x \<in> set ys" by simp
    then have nn: "0 \<le> indexOf ys x" "indexOf ys x \<noteq> -1"
      using indexOf_present [OF mem] by auto
    have "nat (indexOf ys x + 1) = Suc (nat (indexOf ys x))"
      using nn by simp
    with False nn Cons.IH [OF mem] show ?thesis
      by (simp add: splice1_def Let_def)
  qed
qed

lemma count_list_remove1: "count_list (remove1 x xs) x = count_list xs x - 1"
  by (induction xs) auto

lemma remove1_absent_once: "count_list xs x \<le> 1 \<Longrightarrow> x \<notin> set (remove1 x xs)"
  using count_list_remove1 [of x xs] count_list_0_iff [of "remove1 x xs" x] by simp

subsection \<open>\<open>release\<close>\<close>

lemma pool_release: "pool (snd (release c hard s)) = remove1 c (pool s)"
  by (cases "c \<in> set (pool s)")
     (simp_all add: release_def Let_def indexOf_minus1_iff splice1_indexOf invoke_def remove1_idem)

lemma release_present:
  "c \<in> set (pool s) \<Longrightarrow>
     fst (release c hard s) \<and> pool (snd (release c hard s)) = remove1 c (pool s) \<and>
     releases (snd (release c hard s)) = releases s + 1"
  by (simp add: release_def Let_def indexOf_minus1_iff splice1_indexOf invoke_def)

lemma release_absent: "c \<notin> set (pool s) \<Longrightarrow> release c hard s = (False, s)"
  by (simp add: release_def Let_def indexOf_minus1_iff)

lemma pooled_pool: "pool pooled = [7]"
  by (simp add: pooled_def Manager_def fresh_def allocate_def await_def listen_def on_def
      signal_def either_def removeListener_def complete_def Let_def)

text \<open>
  Claim C8. \<open>release(connection, hard)\<close> on a connection that is in the pool returns
  true, takes the connection out of the pool (the entry \<open>indexOf\<close> finds, so that the
  pool is one shorter and, the connection being resident once, no longer holds it) and
  adds exactly 1 to the \<open>releases\<close> metric. On a connection that is not in the pool it
  returns false and changes nothing: neither the pool nor \<open>releases\<close>.
\<close>

theorem release_spec:
  "(c \<in> set (pool s) \<longrightarrow>
      fst (release c hard s) \<and>
      pool (snd (release c hard s)) = remove1 c (pool s) \<and>
      length (pool (snd (release c hard s))) + 1 = length (pool s) \<and>
      (count_list (pool s) c \<le> 1 \<longrightarrow> c \<notin> set (pool (snd (release c hard s)))) \<and>
      releases (snd (release c hard s)) = releases s + 1) \<and>
   (c \<notin> set (pool s) \<longrightarrow> release c hard s = (False, s))"
proof (intro conjI impI)
  assume mem: "c \<in> set (pool s)"
  show "fst (release c hard s)"
    using release_present [OF mem] by simp
  show eq: "pool (snd (release c hard s)) = remove1 c (pool s)"
    by (rule pool_release)
  show "length (pool (snd (release c hard s))) + 1 = length (pool s)"
    using mem length_pos_if_in_set [OF mem] by (simp add: eq length_remove1)
  show "releases (snd (release c hard s)) = releases s + 1"
    using release_present [OF mem] by simp
  show "c \<notin> set (pool (snd (release c hard s)))" if "count_list (pool s) c \<le> 1"
    using that by (simp add: eq remove1_absent_once)
next
  assume "c \<notin> set (pool s)"
  then show "release c hard s = (False, s)"
    by (rule release_absent)
qed

theorem release_spec_witness:
  "7 \<in> set (pool pooled) \<and> count_list (pool pooled) 7 \<le> 1 \<and> 8 \<notin> set (pool pooled) \<and>
   fst (release 7 True pooled) \<and> pool (snd (release 7 True pooled)) = [] \<and>
   releases (snd (release 7 True pooled)) = releases pooled + 1 \<and>
   release 8 False pooled = (False, pooled)"
  using release_spec [of 7 pooled True] release_spec [of 8 pooled False]
  by (simp add: pooled_pool)

subsection \<open>\<open>isAvailable\<close> and the scan of \<open>allocate\<close>\<close>

lemma isAvailable_frame [simp]:
  "allocations (snd (isAvailable c s)) = allocations s"
  "completed (snd (isAvailable c s)) = completed s"
  "pending (snd (isAvailable c s)) = pending s"
  "limit (snd (isAvailable c s)) = limit s"
  "generator (snd (isAvailable c s)) = generator s"
  "closing (snd (isAvailable c s)) = closing s"
  "emitted (snd (isAvailable c s)) = emitted s"
  "ticks (snd (isAvailable c s)) = ticks s"
  "calling (snd (isAvailable c s)) = calling s"
  "raised (snd (isAvailable c s)) = raised s"
  "errorHandled (snd (isAvailable c s)) = errorHandled s"
  by (simp_all add: isAvailable_def release_def random70_def invoke_def Let_def split: list.split)

lemma isAvailable_conns [simp]:
  "readyState (conns (snd (isAvailable c s)) x) = readyState (conns s x)"
  "destroyed (conns (snd (isAvailable c s)) x) = destroyed (conns s x)"
  "pendingWriteReqs (conns (snd (isAvailable c s)) x) = pendingWriteReqs (conns s x)"
  "writeQueue (conns (snd (isAvailable c s)) x) = writeQueue (conns s x)"
  "listeners (conns (snd (isAvailable c s)) x) = listeners (conns s x)"
  by (simp_all add: isAvailable_def release_def random70_def invoke_def Let_def split: list.split)

lemma isAvailable_pool:
  "pool (snd (isAvailable c s)) = pool s \<or> pool (snd (isAvailable c s)) = remove1 c (pool s)"
  by (simp add: isAvailable_def random70_def Let_def pool_release split: list.split)

lemma isAvailable_100_iff:
  "fst (isAvailable c s) = 100 \<longleftrightarrow> writable (conns s c) \<and> writes (conns s c) = 0"
  by (auto simp add: isAvailable_def random70_def Let_def split: list.split)

lemma isAvailable_100_same: "fst (isAvailable c s) = 100 \<Longrightarrow> snd (isAvailable c s) = s"
  by (simp add: isAvailable_100_iff) (simp add: isAvailable_def)

lemma scan_allocations:
  "scan i probs s = (r, probs', s') \<Longrightarrow> allocations s' = allocations s"
proof (induction i arbitrary: probs s)
  case 0
  then show ?case by simp
next
  case (Suc i)
  show ?case
  proof (cases "length (pool s) \<le> i")
    case True
    with Suc.prems show ?thesis by simp
  next
    case False
    obtain p s1 where av: "isAvailable (pool s ! i) s = (p, s1)"
      by (cases "isAvailable (pool s ! i) s")
    have a1: "allocations s1 = allocations s"
      using isAvailable_frame(1) [of "pool s ! i" s] av by simp
    show ?thesis
    proof (cases "p = 100")
      case True
      with Suc.prems False av a1 show ?thesis by simp
    next
      case ne: False
      with Suc.prems False av have "scan i (probs @ [(p, pool s ! i)]) s1 = (r, probs', s')"
        by simp
      from Suc.IH [OF this] a1 show ?thesis by simp
    qed
  qed
qed

lemma fallback_allocations [simp]: "allocations (fallback fn probs s) = allocations s"
  by (simp add: fallback_def complete_def Let_def split: prod.split)

lemma await_allocations [simp]: "allocations (await fn c s) = allocations s"
  by (simp add: await_def listen_def on_def)

text \<open>
  Claim C3 (as amended). A call of \<open>allocate\<close> on a pool with a registered factory adds
  exactly 1 to the \<open>allocations\<close> metric, whatever the outcome. A call that fails at once
  because no factory is registered returns before the increment and leaves the metric
  as it was.
\<close>

theorem allocate_allocations:
  "allocations (allocate fn made s) =
     (if generator s = None then allocations s else allocations s + 1)"
proof (cases "generator s")
  case None
  then show ?thesis by (simp add: allocate_def complete_def)
next
  case (Some g)
  obtain r probs s1 where sc:
    "scan (length (pool s)) [] (s\<lparr>allocations := allocations s + 1\<rparr>) = (r, probs, s1)"
    by (cases "scan (length (pool s)) [] (s\<lparr>allocations := allocations s + 1\<rparr>)")
  have "allocations s1 = allocations s + 1"
    using scan_allocations [OF sc] by simp
  with Some sc show ?thesis
    by (simp add: allocate_def complete_def split: scanned.split factory.split option.split)
qed

text \<open>The claim as written fails on a pool without a factory: the metric stays 0.\<close>

theorem allocate_allocations_counterexample:
  "allocations (allocate 1 None (Manager 20 None)) \<noteq> allocations (Manager 20 None) + 1"
  by (simp add: allocate_def complete_def Manager_def)

theorem allocate_allocations_witness:
  "generator pooled \<noteq> None \<and> allocations (allocate 2 None pooled) = allocations pooled + 1 \<and>
   generator (Manager 20 None) = None \<and>
   allocations (allocate 1 None (Manager 20 None)) = allocations (Manager 20 None)"
  using allocate_allocations [of 2 None pooled] allocate_allocations [of 1 None "Manager 20 None"]
  by (simp add: pooled_def Manager_def fresh_def allocate_def await_def listen_def on_def
      signal_def either_def removeListener_def complete_def Let_def)

text \<open>
  Claim C5 (what the code does). For every connection whose \<open>readyState\<close> is
  \<open>opening\<close> the scorer returns 0, not 70: such a connection is not writable, and the
  test \<open>if (!writable) return 0\<close> comes before the test for \<open>opening\<close>.
\<close>

theorem isAvailable_opening:
  "readyState (conns s c) = ''opening'' \<Longrightarrow> fst (isAvailable c s) = 0"
  by (simp add: isAvailable_def writable_def Let_def)

theorem isAvailable_opening_witness:
  "readyState (conns connecting 7) = ''opening'' \<and> fst (isAvailable 7 connecting) = 0"
proof -
  have h: "readyState (conns connecting 7) = ''opening''"
    by (simp add: connecting_def Manager_def fresh_def allocate_def await_def listen_def on_def)
  show ?thesis using h isAvailable_opening [OF h] by simp
qed

subsection \<open>Evaluating traces\<close>

lemmas trace_defs =
  Manager_def fresh_def allocate_def generate_def await_def listen_def on_def signal_def
  either_def regenerate_def emit_error_def emit_def connection_close_def removeListener_def
  invoke_def release_def complete_def fallback_def isAvailable_def writable_def writes_def
  random70_def free_def end_pool_def ticktock_def splice1_def Let_def

text \<open>
  Claim C6 (as amended). For every connection whose state is \<open>closed\<close>, or whose
  \<open>destroyed\<close> flag is set while it is not writable with nothing to write, scoring
  returns 0 and goes through \<open>release\<close> (soft): the entry \<open>indexOf\<close> finds is removed,
  so a connection that was resident at most once is absent from the pool right after.
\<close>

theorem isAvailable_dead:
  assumes "readyState (conns s c) = ''closed'' \<or>
           destroyed (conns s c) \<and> \<not> (writable (conns s c) \<and> writes (conns s c) = 0)"
  shows "isAvailable c s = (0, snd (release c False s)) \<and>
         pool (snd (isAvailable c s)) = remove1 c (pool s) \<and>
         (count_list (pool s) c \<le> 1 \<longrightarrow> c \<notin> set (pool (snd (isAvailable c s))))"
proof -
  have nw: "\<not> (writable (conns s c) \<and> writes (conns s c) = 0)"
    using assms by (auto simp: writable_def)
  have eq: "isAvailable c s = (0, snd (release c False s))"
    using assms nw by (auto simp: isAvailable_def Let_def)
  then show ?thesis
    by (simp add: pool_release remove1_absent_once)
qed

text \<open>The claim as written fails on a connection that is destroyed but shows \<open>open\<close>
  and has nothing to write: the first test of the cascade returns 100 and the pool
  keeps the connection.\<close>

theorem isAvailable_dead_counterexample:
  "destroyed (conns zombie 7) \<and> fst (isAvailable 7 zombie) = 100 \<and>
   pool (snd (isAvailable 7 zombie)) = [7]"
  by (simp add: zombie_def trace_defs)

theorem isAvailable_dead_witness:
  "readyState (conns buried 7) = ''closed'' \<and> pool buried = [7] \<and>
   fst (isAvailable 7 buried) = 0 \<and> pool (snd (isAvailable 7 buried)) = []"
proof -
  have h: "readyState (conns buried 7) = ''closed''" and p: "pool buried = [7]"
    by (simp_all add: buried_def trace_defs)
  show ?thesis using isAvailable_dead [of buried 7] h p by (simp add: pool_release)
qed

text \<open>
  Claim C1 (what the code does). With an asynchronous factory the capacity test and the
  increment of \<open>pending\<close> are separated by the factory's answer. On a pool of limit 1,
  two allocations made before the factory answers both pass the test; once the factory
  has delivered, \<open>pending\<close> is 2, and once both connections have connected the pool
  holds 2 connections: pool size plus pending exceeds the limit.
\<close>

theorem capacity_exceeded:
  "limit racing = 1 \<and> pool racing = [] \<and> pending racing = 2 \<and> \<not> within_limit racing \<and>
   pool (run [Signal 1 SConnect None, Signal 2 SConnect None] racing) = [1, 2] \<and>
   pending (run [Signal 1 SConnect None, Signal 2 SConnect None] racing) = 0 \<and>
   \<not> within_limit (run [Signal 1 SConnect None, Signal 2 SConnect None] racing)"
  by (simp add: racing_def within_limit_def occupancy_def trace_defs)

subsection \<open>\<open>either\<close>\<close>

text \<open>\<open>either\<close> pushes the connection whatever its argument.\<close>

lemma either_effect:
  "pool (either fn c err s) = pool s @ [c] \<and> pending (either fn c err s) = pending s - 1 \<and>
   completed (either fn c err s) = completed s @ [(fn, err, Some c)]"
  by (simp add: either_def removeListener_def complete_def Let_def)

text \<open>
  Claim C2 (what the code does). When the connection a synchronous factory has just
  created emits \<open>error\<close>, \<open>regenerate\<close> runs first (the connection is not in the pool
  yet, nothing is removed), then \<open>either\<close> pushes the connection into the pool,
  decrements \<open>pending\<close> and calls back with the error and the connection: the failed
  connection is in the pool.
\<close>

theorem either_error_pools:
  "pool refused = [7] \<and> pending refused = 0 \<and>
   completed refused = [(1, Some (Foreign ''ECONNREFUSED''), Some 7)] \<and>
   emitted refused = [EmError (Foreign ''ECONNREFUSED'')]"
  by (simp add: refused_def trace_defs)

subsection \<open>The scan finds the last certain connection\<close>

lemma certain_iff: "certain s c \<longleftrightarrow> writable (conns s c) \<and> writes (conns s c) = 0"
  by (simp add: certain_def isAvailable_100_iff)

lemma certain_isAvailable: "certain (snd (isAvailable c s)) = certain s"
  by (rule ext) (simp add: certain_iff writable_def writes_def)

lemma take_remove1_at:
  "i < length xs \<Longrightarrow> xs ! i = c \<Longrightarrow> take i (remove1 c xs) = remove1 c (take (Suc i) xs)"
proof (induction xs arbitrary: i)
  case Nil
  then show ?case by simp
next
  case (Cons y ys)
  show ?case
  proof (cases "y = c")
    case True
    then show ?thesis by simp
  next
    case False
    with Cons.prems obtain j where j: "i = Suc j" by (cases i) auto
    with Cons.prems have "j < length ys" "ys ! j = c" by auto
    from Cons.IH [OF this] False j show ?thesis by simp
  qed
qed

lemma filter_remove1_other: "\<not> P c \<Longrightarrow> filter P (remove1 c xs) = filter P xs"
  by (induction xs) auto

text \<open>The scan goes down from index \<open>i - 1\<close>. A connection it removes on the way is not
  certain, so the certain connections below \<open>i\<close> stay what they were, in order.\<close>

lemma scan_hit:
  "i \<le> length (pool s) \<Longrightarrow> filter (certain s) (take i (pool s)) \<noteq> [] \<Longrightarrow>
     fst (scan i probs s) = Hit (last (filter (certain s) (take i (pool s)))) \<and>
     completed (snd (snd (scan i probs s))) = completed s"
proof (induction i arbitrary: probs s)
  case 0
  then show ?case by simp
next
  case (Suc i)
  let ?c = "pool s ! i"
  from Suc.prems have lt: "i < length (pool s)" by simp
  then have tk: "take (Suc i) (pool s) = take i (pool s) @ [?c]"
    by (simp add: take_Suc_conv_app_nth)
  obtain p s1 where av: "isAvailable ?c s = (p, s1)"
    by (cases "isAvailable ?c s")
  show ?case
  proof (cases "certain s ?c")
    case True
    then have "p = 100" using av by (simp add: certain_def)
    with lt av True tk show ?thesis
      using isAvailable_frame(2) [of ?c s] by simp
  next
    case False
    then have p: "p \<noteq> 100" using av by (simp add: certain_def)
    have s1: "s1 = snd (isAvailable ?c s)" using av by simp
    have cert: "certain s1 = certain s" by (simp add: s1 certain_isAvailable)
    have comp: "completed s1 = completed s" by (simp add: s1)
    have flt: "filter (certain s) (take i (pool s1)) = filter (certain s) (take (Suc i) (pool s))"
      using isAvailable_pool [of ?c s]
    proof
      assume "pool (snd (isAvailable ?c s)) = pool s"
      with False tk show ?thesis by (simp add: s1)
    next
      assume "pool (snd (isAvailable ?c s)) = remove1 ?c (pool s)"
      then have "take i (pool s1) = remove1 ?c (take (Suc i) (pool s))"
        using take_remove1_at [OF lt refl] by (simp add: s1)
      with False show ?thesis by (simp add: filter_remove1_other)
    qed
    have len: "i \<le> length (pool s1)"
      using isAvailable_pool [of ?c s] lt by (auto simp: s1 length_remove1)
    have ne: "filter (certain s1) (take i (pool s1)) \<noteq> []"
      using Suc.prems(2) flt cert by simp
    have step: "scan (Suc i) probs s = scan i (probs @ [(p, ?c)]) s1"
      using lt av p by simp
    from Suc.IH [OF len ne, of "probs @ [(p, ?c)]"] step flt cert comp
    show ?thesis by simp
  qed
qed

text \<open>
  Claim C4 (as amended). For every pool with a registered factory that holds at least
  one connection whose score is exactly 100, \<open>allocate\<close> completes at once, without
  error, with the last such connection in pool (insertion) order: the scan goes from
  the end of the pool to its start, and nothing is sorted.
\<close>

theorem allocate_certain:
  assumes gen: "generator s \<noteq> None"
    and some: "filter (certain s) (pool s) \<noteq> []"
  shows "completed (allocate fn made s) =
           completed s @ [(fn, None, Some (last (filter (certain s) (pool s))))]"
proof -
  let ?s0 = "s\<lparr>allocations := allocations s + 1\<rparr>"
  have c0: "certain (s\<lparr>allocations := n\<rparr>) = certain s" for n
    by (rule ext) (simp add: certain_iff)
  have "fst (scan (length (pool s)) [] ?s0) = Hit (last (filter (certain s) (pool s))) \<and>
        completed (snd (snd (scan (length (pool s)) [] ?s0))) = completed s"
    using scan_hit [of "length (pool s)" ?s0 "[]"] some by (simp add: c0)
  then obtain probs s1 where
    "scan (length (pool s)) [] ?s0 = (Hit (last (filter (certain s) (pool s))), probs, s1)"
    "completed s1 = completed s"
    by (cases "scan (length (pool s)) [] ?s0") auto
  with gen show ?thesis
    by (auto simp: allocate_def complete_def)
qed

lemma idle2_facts:
  "pool idle2 = [7, 8]" "generator idle2 = Some Sync"
  "certain idle2 7" "certain idle2 8"
  "completed idle2 = [(1, None, Some 7), (2, None, Some 8)]"
  by (simp_all add: idle2_def certain_def trace_defs)

text \<open>The claim as written fails on a pool of two certain connections: the allocation
  gets the second one, not the first.\<close>

theorem allocate_certain_counterexample:
  "pool idle2 = [7, 8] \<and> fst (isAvailable 7 idle2) = 100 \<and> fst (isAvailable 8 idle2) = 100 \<and>
   completed (allocate 3 None idle2) = completed idle2 @ [(3, None, Some 8)]"
  by (simp add: idle2_def trace_defs)

theorem allocate_certain_witness:
  "generator idle2 \<noteq> None \<and> filter (certain idle2) (pool idle2) = [7, 8] \<and>
   completed (allocate 3 None idle2) = completed idle2 @ [(3, None, Some 8)]"
  using allocate_certain [of idle2 3 None] by (simp add: idle2_facts)

subsection \<open>The countdown of \<open>end\<close>\<close>

text \<open>Each \<open>connection:close\<close> moves listeners from "can still fire" to "has emitted
  \<open>close\<close>", one for one; a listener whose \<open>size\<close> is 0 or less only goes further
  down.\<close>

lemma ending_balance:
  "count_list (snd (ending ns)) EmClose + length (filter (\<lambda>n. 1 \<le> n) (fst (ending ns))) =
     length (filter (\<lambda>n. 1 \<le> n) ns)"
  by (induction ns) (auto simp: Let_def split: prod.split)

lemma connection_close_balance:
  "closes (connection_close c s) + armed (connection_close c s) = closes s + armed s"
  "closes s \<le> closes (connection_close c s)"
  using ending_balance [of "closing s"]
  by (simp_all add: connection_close_def closes_def armed_def case_prod_beta)

lemma connection_close_pool [simp]: "pool (connection_close c s) = pool s"
  by (simp add: connection_close_def split: prod.split)

lemma release_keeps [simp]:
  "closing (snd (release c hard s)) = closing s"
  "emitted (snd (release c hard s)) = emitted s"
  by (simp_all add: release_def invoke_def Let_def)

lemma regenerate_balance:
  "closes (snd (regenerate c err s)) + armed (snd (regenerate c err s)) = closes s + armed s"
  "closes s \<le> closes (snd (regenerate c err s))"
proof -
  let ?s3 = "removeListener c Regenerate (snd (release c False (invoke c CDestroySoon s)))"
  have k: "closes ?s3 = closes s" "armed ?s3 = armed s"
    by (simp_all add: closes_def armed_def removeListener_def invoke_def)
  have r: "snd (regenerate c err s) =
     (case err of Some e \<Rightarrow> snd (emit_error e ?s3) | None \<Rightarrow> connection_close c ?s3)"
    by (simp add: regenerate_def Let_def split: option.split)
  have e: "closes (snd (emit_error x ?s3)) = closes ?s3" "armed (snd (emit_error x ?s3)) = armed ?s3" for x
    by (simp_all add: emit_error_def emit_def closes_def armed_def)
  show "closes (snd (regenerate c err s)) + armed (snd (regenerate c err s)) = closes s + armed s"
    using connection_close_balance(1) [where c = c and s = ?s3] k e by (simp add: r split: option.split)
  show "closes s \<le> closes (snd (regenerate c err s))"
    using connection_close_balance(2) [where c = c and s = ?s3] k e by (simp add: r split: option.split)
qed

lemma either_keeps:
  "closes (either fn c err s) = closes s" "armed (either fn c err s) = armed s"
  by (simp_all add: either_def removeListener_def complete_def closes_def armed_def Let_def)

lemma run_listeners_balance:
  "closes (run_listeners ls c err s) + armed (run_listeners ls c err s) = closes s + armed s \<and>
   closes s \<le> closes (run_listeners ls c err s)"
proof (induction ls c err s rule: run_listeners.induct)
  case (1 c err s)
  then show ?case by simp
next
  case (2 ls c err s)
  obtain threw s' where r: "regenerate c err s = (threw, s')"
    by (cases "regenerate c err s")
  have b: "closes s' + armed s' = closes s + armed s" "closes s \<le> closes s'"
    using regenerate_balance [where c = c and err = err and s = s] r by simp_all
  show ?case
  proof (cases threw)
    case True
    with r b show ?thesis by simp
  next
    case False
    with 2 [OF r [symmetric]] r b show ?thesis by simp
  qed
next
  case (3 fn ls c err s)
  then show ?case by (simp add: either_keeps)
qed



subsection \<open>What the other operations leave alone\<close>

lemma scan_keeps:
  assumes "\<And>c s. P s \<Longrightarrow> P (snd (isAvailable c s))"
  shows "P s \<Longrightarrow> P (snd (snd (scan i probs s)))"
proof (induction i arbitrary: probs s)
  case 0
  then show ?case by simp
next
  case (Suc i)
  from assms [OF Suc.prems] Suc.IH Suc.prems show ?case
    by (simp add: Let_def case_prod_beta)
qed

lemma free_loop_keeps:
  assumes "\<And>c s. P s \<Longrightarrow> P (snd (isAvailable c s))"
    and "\<And>c s. P s \<Longrightarrow> P (snd (release c hard s))"
  shows "P s \<Longrightarrow> P (snd (free_loop xs keep hard saved s))"
proof (induction xs arbitrary: saved s)
  case Nil
  then show ?case by simp
next
  case (Cons c xs)
  from assms(1) [OF Cons.prems] have 1: "P (snd (isAvailable c s))" .
  from assms(2) [OF 1] have 2: "P (snd (release c hard (snd (isAvailable c s))))" .
  from Cons.IH [OF 1] Cons.IH [OF 2] show ?case
    by (simp add: Let_def case_prod_beta)
qed

lemma allocate_keeps:
  "closing (allocate fn made s) = closing s \<and> emitted (allocate fn made s) = emitted s"
proof -
  let ?s0 = "s\<lparr>allocations := allocations s + 1\<rparr>"
  let ?P = "\<lambda>t. closing t = closing s \<and> emitted t = emitted s"
  have "?P (snd (snd (scan (length (pool s)) [] ?s0)))"
    by (rule scan_keeps [where P = ?P]) simp_all
  then show ?thesis
    by (simp add: allocate_def complete_def fallback_def await_def listen_def on_def Let_def
        case_prod_beta split: option.split scanned.split factory.split)
qed


lemma generate_keeps:
  "closing (generate fn err c s) = closing s \<and> emitted (generate fn err c s) = emitted s \<and>
   pool (generate fn err c s) = pool s"
  by (simp add: generate_def complete_def await_def listen_def on_def split: option.split)



lemma release_ticks [simp]: "ticks (snd (release c hard s)) = ticks s"
  by (simp add: release_def invoke_def Let_def)

lemma free_keeps:
  "closing (free keep hard s) = closing s" "closes (free keep hard s) = closes s"
  "ticks (free keep hard s) = ticks s"
proof -
  let ?P = "\<lambda>t. closing t = closing s \<and> emitted t = emitted s \<and> ticks t = ticks s"
  have "?P (snd (free_loop (pool s) keep hard 0 s))"
    by (rule free_loop_keeps [where P = ?P]) simp_all
  then show "closing (free keep hard s) = closing s" "closes (free keep hard s) = closes s"
    "ticks (free keep hard s) = ticks s"
    by (simp_all add: free_def emit_def closes_def case_prod_beta)
qed




lemma end_pool_closes: "closes (end_pool hard s) = closes s"
  using free_keeps(2) [of 0 True s] by (simp add: end_pool_def Let_def closes_def)

lemma end_pool_armed: "armed (end_pool hard s) = armed s + (if pool s = [] then 0 else 1)"
  by (cases "pool s") (simp_all add: end_pool_def Let_def armed_def free_keeps)

lemma end_pool_ticks: "ticks (end_pool hard s) = ticks s + 1"
  by (simp add: end_pool_def Let_def free_keeps)

lemma step_balance:
  "closes (step e s) + armed (step e s) =
     closes s + armed s + (if is_End e \<and> pool s \<noteq> [] then 1 else 0) \<and>
   closes s \<le> closes (step e s)"
proof (cases e)
  case (Allocate fn made)
  then show ?thesis using allocate_keeps [of fn made s] by (simp add: closes_def armed_def)
next
  case (Generated fn err c)
  then show ?thesis
    using generate_keeps [of fn err c "s\<lparr>calling := remove1 fn (calling s)\<rparr>"]
    by (simp add: closes_def armed_def)
next
  case (Signal c k err)
  then show ?thesis using run_listeners_balance by (simp add: signal_def)
next
  case (Free keep hard)
  then show ?thesis by (simp add: free_keeps armed_def)
next
  case (End hard)
  then show ?thesis by (simp add: end_pool_closes end_pool_armed)
qed (simp_all add: closes_def armed_def ticktock_def emit_def)



subsection \<open>Traces\<close>

lemma run_closes_mono: "closes s \<le> closes (run es s)"
proof (induction es arbitrary: s)
  case Nil
  then show ?case by simp
next
  case (Cons e es)
  from step_balance [of e s] Cons [of "step e s"] show ?case by simp
qed

lemma run_balance_no_End:
  "\<forall>e \<in> set es. \<not> is_End e \<Longrightarrow> closes (run es s) + armed (run es s) = closes s + armed s"
proof (induction es arbitrary: s)
  case Nil
  then show ?case by simp
next
  case (Cons e es)
  from step_balance [of e s] Cons.prems Cons.IH [of "step e s"] show ?case by simp
qed






text \<open>
  Claim C10. When \<open>end\<close> is called on an empty pool (and no earlier shutdown is still
  counting), its countdown starts at 0, and whatever happens afterwards, short of
  another call of \<open>end\<close>, the manager never emits \<open>close\<close>; the \<open>end\<close> event is
  scheduled all the same and emitted when the scheduled task runs.
\<close>

theorem end_empty_never_closes:
  assumes "pool s = []" and "armed s = 0" and "\<forall>e \<in> set es. \<not> is_End e"
  shows "closing (end_pool hard s) = closing s @ [0] \<and>
         closes (run es (end_pool hard s)) = closes s \<and>
         ticks (end_pool hard s) = ticks s + 1 \<and>
         emitted (ticktock (end_pool hard s)) = emitted (end_pool hard s) @ [EmEnd]"
proof -
  let ?s' = "end_pool hard s"
  have "closes (run es ?s') + armed (run es ?s') = closes ?s' + armed ?s'"
    using assms(3) by (rule run_balance_no_End)
  then have "closes (run es ?s') \<le> closes s"
    using assms(1,2) by (simp add: end_pool_closes end_pool_armed)
  moreover have "closes s \<le> closes (run es ?s')"
    using run_closes_mono [of ?s' es] by (simp add: end_pool_closes)
  moreover have "closing ?s' = closing s @ [0]"
    using assms(1) by (simp add: end_pool_def Let_def free_keeps)
  ultimately show ?thesis
    by (simp add: end_pool_ticks ticktock_def emit_def)
qed

theorem end_empty_never_closes_witness:
  "pool (Manager 20 (Some Sync)) = [] \<and> armed (Manager 20 (Some Sync)) = 0 \<and>
   list_all (\<lambda>e. \<not> is_End e) [Tick, Allocate 1 (Some 7), Signal 7 SConnect None,
       Release 7 True, Signal 7 SClose None] \<and>
   closes (run [Tick, Allocate 1 (Some 7), Signal 7 SConnect None, Release 7 True,
       Signal 7 SClose None] (end_pool True (Manager 20 (Some Sync)))) = 0"
  using end_empty_never_closes [of "Manager 20 (Some Sync)"
      "[Tick, Allocate 1 (Some 7), Signal 7 SConnect None, Release 7 True, Signal 7 SClose None]" True]
  by (simp add: armed_def closes_def Manager_def)

subsection \<open>The scan stays inside the array\<close>

text \<open>A connection removed during the scan sits at or below the index just read, so the
  next index is still in range and \<open>allocate\<close> never throws.\<close>

lemma scan_in_range: "i \<le> length (pool s) \<Longrightarrow> fst (scan i probs s) \<noteq> Crash"
proof (induction i arbitrary: probs s)
  case 0
  then show ?case by simp
next
  case (Suc i)
  let ?c = "pool s ! i"
  have "i \<le> length (pool (snd (isAvailable ?c s)))"
    using isAvailable_pool [of ?c s] Suc.prems by (auto simp: length_remove1)
  from Suc.IH [OF this] Suc.prems show ?case
    by (simp add: case_prod_beta Let_def)
qed

lemma allocate_raises_nothing: "raised (allocate fn made s) = raised s"
proof -
  let ?s0 = "s\<lparr>allocations := allocations s + 1\<rparr>"
  have "fst (scan (length (pool s)) [] ?s0) \<noteq> Crash"
    using scan_in_range [of "length (pool s)" ?s0 "[]"] by simp
  moreover have "raised (snd (snd (scan (length (pool s)) [] ?s0))) = raised s"
    by (rule scan_keeps [where P = "\<lambda>t. raised t = raised s"]) simp_all
  ultimately show ?thesis
    by (simp add: allocate_def complete_def fallback_def await_def listen_def on_def Let_def
        case_prod_beta split: option.split scanned.split factory.split)
qed

subsection \<open>Capacity on the synchronous path\<close>

text \<open>With a synchronous factory the capacity test and \<open>pending++\<close> happen in the same
  call, \<open>either\<close> moves one unit from \<open>pending\<close> to the pool, and everything else only
  takes connections out: the occupancy never passes the limit. This is the bound that the
  asynchronous path (claim C1) loses.\<close>

lemma isAvailable_occupancy:
  "occupancy (snd (isAvailable c s)) \<le> occupancy s"
  using isAvailable_pool [of c s] by (auto simp: occupancy_def length_remove1)

lemma release_occupancy:
  "occupancy (snd (release c hard s)) \<le> occupancy s"
  "limit (snd (release c hard s)) = limit s"
  "generator (snd (release c hard s)) = generator s"
  "calling (snd (release c hard s)) = calling s"
  by (simp_all add: occupancy_def pool_release length_remove1)
     (simp_all add: release_def invoke_def Let_def)

lemma synchronous_isAvailable: "synchronous n l s \<Longrightarrow> synchronous n l (snd (isAvailable c s))"
  using isAvailable_occupancy [of c s] by (simp add: synchronous_def)

lemma synchronous_release: "synchronous n l s \<Longrightarrow> synchronous n l (snd (release c hard s))"
  using release_occupancy [of c hard s] by (simp add: synchronous_def)

lemma synchronous_allocate: "synchronous l l s \<Longrightarrow> synchronous l l (allocate fn made s)"
proof -
  assume a: "synchronous l l s"
  let ?s0 = "s\<lparr>allocations := allocations s + 1\<rparr>"
  have s0: "synchronous l l (s\<lparr>allocations := k\<rparr>)" for k
    using a by (simp add: synchronous_def occupancy_def)
  have "synchronous l l (snd (snd (scan (length (pool s)) [] ?s0)))"
    by (rule scan_keeps [where P = "synchronous l l"]) (simp_all add: synchronous_isAvailable s0)
  moreover have "generator s \<noteq> Some Async" using a by (simp add: synchronous_def)
  ultimately show ?thesis using a
    by (cases "generator s")
       (auto simp: allocate_def synchronous_def occupancy_def complete_def fallback_def
          await_def listen_def on_def Let_def case_prod_beta
          split: scanned.split option.split factory.split)
qed

lemma synchronous_small:
  "synchronous n l s \<Longrightarrow> synchronous n l (invoke c m s)"
  "synchronous n l s \<Longrightarrow> synchronous n l (removeListener c x s)"
  "synchronous n l s \<Longrightarrow> synchronous n l (snd (emit_error e s))"
  "synchronous n l s \<Longrightarrow> synchronous n l (connection_close c s)"
  by (simp_all add: synchronous_def occupancy_def invoke_def removeListener_def emit_error_def
      emit_def connection_close_def case_prod_beta)

lemma synchronous_regenerate: "synchronous n l s \<Longrightarrow> synchronous n l (snd (regenerate c err s))"
  by (cases err)
     (simp_all add: regenerate_def Let_def synchronous_small synchronous_release)

lemma synchronous_either: "synchronous n l s \<Longrightarrow> synchronous n l (either fn c err s)"
  by (simp add: synchronous_def occupancy_def either_def removeListener_def complete_def Let_def)

lemma synchronous_run_listeners:
  "synchronous n l s \<Longrightarrow> synchronous n l (run_listeners ls c err s)"
proof (induction ls c err s rule: run_listeners.induct)
  case (1 c err s)
  then show ?case by simp
next
  case (2 ls c err s)
  obtain threw s' where r: "regenerate c err s = (threw, s')"
    by (cases "regenerate c err s")
  have s': "synchronous n l s'"
    using synchronous_regenerate [OF 2(2), of c err] r by simp
  show ?case
  proof (cases threw)
    case True
    with r s' show ?thesis by simp
  next
    case False
    with 2(1) [OF r [symmetric] _ s'] r show ?thesis by simp
  qed
next
  case (3 fn ls c err s)
  then show ?case by (simp add: synchronous_either)
qed

lemma synchronous_free: "synchronous n l s \<Longrightarrow> synchronous n l (free keep hard s)"
proof -
  assume a: "synchronous n l s"
  have "synchronous n l (snd (free_loop (pool s) keep hard 0 s))"
    by (rule free_loop_keeps [where P = "synchronous n l"])
       (simp_all add: synchronous_isAvailable synchronous_release a)
  then show ?thesis
    by (simp add: free_def emit_def synchronous_def occupancy_def case_prod_beta)
qed

lemma synchronous_step:
  "synchronous l l s \<Longrightarrow> e \<noteq> Factory Async \<Longrightarrow> synchronous l l (step e s)"
proof (cases e)
  case (Factory g)
  assume "synchronous l l s" "e \<noteq> Factory Async"
  with Factory show ?thesis by (simp add: synchronous_def occupancy_def)
next
  case (Allocate fn made)
  assume "synchronous l l s"
  with Allocate show ?thesis by (simp add: synchronous_allocate)
next
  case (Generated fn err c)
  assume "synchronous l l s"
  with Generated show ?thesis by (simp add: synchronous_def)
next
  case (Signal c k err)
  assume "synchronous l l s"
  with Signal show ?thesis by (simp add: signal_def synchronous_run_listeners)
next
  case (Release c hard)
  assume "synchronous l l s"
  with Release show ?thesis by (simp add: synchronous_release)
next
  case (Free keep hard)
  assume "synchronous l l s"
  with Free show ?thesis by (simp add: synchronous_free)
next
  case (End hard)
  assume "synchronous l l s"
  from synchronous_free [OF this, of 0 True] End show ?thesis
    by (simp add: end_pool_def Let_def synchronous_def occupancy_def)
qed (simp_all add: synchronous_def occupancy_def ticktock_def emit_def)

lemma capacity_synchronous:
  assumes "within_limit s" and "generator s \<noteq> Some Async" and "calling s = []"
    and "\<forall>e \<in> set es. e \<noteq> Factory Async"
  shows "within_limit (run es s)"
proof -
  have "synchronous (limit s) (limit s) s \<Longrightarrow> \<forall>e \<in> set es. e \<noteq> Factory Async \<Longrightarrow>
      synchronous (limit s) (limit s) (run es s)" for s
  proof (induction es arbitrary: s)
    case Nil
    then show ?case by simp
  next
    case (Cons e es)
    have 1: "synchronous (limit s) (limit s) (step e s)"
      using synchronous_step Cons.prems by simp
    then have "limit (step e s) = limit s" by (simp add: synchronous_def)
    with Cons.IH [of "step e s"] 1 Cons.prems show ?case by simp
  qed
  from this [of s] assms show ?thesis
    by (simp add: synchronous_def within_limit_def)
qed

subsection \<open>The fallback of \<open>allocate\<close>\<close>














end
